theory Spec2Isabelle
  imports Main
begin

section \<open>Strings, the escaped query and the match pattern\<close>

text \<open>
  A JavaScript string is modelled as a \<^typ>\<open>string\<close>, one \<^typ>\<open>char\<close> per code unit; the
  model therefore covers text whose code units lie in the range 0..255.
\<close>

definition backslash :: char where
  "backslash = CHR 0x5C"

text \<open>The characters of the class \<^verbatim>\<open>[.*+?^=!:${}()|[\]\/\\]\<close> of \<^verbatim>\<open>suggest\<close>.\<close>

definition special_chars :: "char list" where
  \<open>special_chars = ''.*+?^=!:${}()|[]/'' @ [backslash]\<close>

text \<open>
  \<^verbatim>\<open>this._el.value.replace(/([.*+?^=!:${}()|[\]\/\\])/g, "\\$1")\<close>: every character of
  the class is replaced by a backslash followed by itself.
\<close>

definition escape_query :: "string \<Rightarrow> string" where
  "escape_query v = concat (map (\<lambda>c. if c \<in> set special_chars then [backslash, c] else [c]) v)"

text \<open>The syntax characters of a JavaScript pattern.\<close>

definition syntax_chars :: "char list" where
  \<open>syntax_chars = ''^$.*+?()[]{}|'' @ [backslash]\<close>

text \<open>
  The body of a pattern, read as a sequence of pattern characters and identity escapes. The
  result is the text the body matches literally; \<open>None\<close> means that the body uses pattern
  syntax beyond this fragment (an unescaped syntax character, or an escape of a character
  outside the class above).
\<close>

fun pattern_atoms :: "string \<Rightarrow> string option" where
  "pattern_atoms [] = Some []"
| "pattern_atoms [c] = (if c \<in> set syntax_chars then None else Some [c])"
| "pattern_atoms (c # d # cs) =
     (if c = backslash then
        (if d \<in> set special_chars then map_option ((#) d) (pattern_atoms cs) else None)
      else if c \<in> set syntax_chars then None
      else map_option ((#) c) (pattern_atoms (d # cs)))"

text \<open>
  \<^verbatim>\<open>new RegExp('(' + query + ')', 'ig')\<close>: one capture group around the body. The compiled
  pattern is represented by the text it matches (case-insensitively, everywhere).
\<close>

definition new_RegExp :: "string \<Rightarrow> string option" where
  "new_RegExp src =
     (case src of
        [] \<Rightarrow> None
      | c # rest \<Rightarrow>
          if c = CHR ''('' \<and> rest \<noteq> [] \<and> last rest = CHR '')''
          then pattern_atoms (butlast rest) else None)"

text \<open>
  The canonical form of a code unit under the \<^verbatim>\<open>i\<close> flag: its upper case, when that is
  a single code unit. Within 0..255 these are a..z and the accented letters 224..254 other
  than the division sign 247; the micro sign, the sharp s and y with diaeresis have no upper
  case in the range and stay as they are.
\<close>

definition canonicalize :: "char \<Rightarrow> char" where
  "canonicalize c =
     (let n = (of_char c :: nat)
      in if (97 \<le> n \<and> n \<le> 122) \<or> (224 \<le> n \<and> n \<le> 254 \<and> n \<noteq> 247)
         then char_of (n - 32) else c)"

text \<open>The pattern text \<open>lit\<close> matches at the start of \<open>str\<close>.\<close>

definition matches_at :: "string \<Rightarrow> string \<Rightarrow> bool" where
  "matches_at lit str \<longleftrightarrow>
     length lit \<le> length str \<and>
     map canonicalize (take (length lit) str) = map canonicalize lit"

text \<open>
  \<^verbatim>\<open>term.replace(matchedRegExp, '<strong>$1</strong>')\<close> with the \<^verbatim>\<open>g\<close> flag: the
  string is scanned from the left; where the pattern matches, the matched text (group 1, in
  the spelling of the string) is wrapped and the scan goes on behind it. The empty pattern
  matches before every character and at the end.
\<close>

function replace_strong :: "string \<Rightarrow> string \<Rightarrow> string" where
  "replace_strong lit str =
     (if lit = [] then ''<strong></strong>'' @ concat (map (\<lambda>c. c # ''<strong></strong>'') str)
      else if str = [] then []
      else if matches_at lit str
        then ''<strong>'' @ take (length lit) str @ ''</strong>''
               @ replace_strong lit (drop (length lit) str)
      else hd str # replace_strong lit (tl str))"
  by pat_completeness auto
termination
  by (relation "measure (\<lambda>(lit, str). length str)") auto

declare replace_strong.simps [simp del]

text \<open>Decimal numerals, as string concatenation with a number produces them.\<close>

fun show_nat :: "nat \<Rightarrow> string" where
  "show_nat n =
     (if n < 10 then [''0123456789'' ! n]
      else show_nat (n div 10) @ [''0123456789'' ! (n mod 10)])"

declare show_nat.simps [simp del]

section \<open>The widget's state\<close>

datatype event = Ready | Typing string | Show | Hide | Select | Disable

datatype callback = EmitReady | EmitTyping

record timer =
  timer_id :: nat
  deadline :: nat
  callback :: callback

text \<open>
  A rendered suggestion: the \<^verbatim>\<open>li\<close> element that \<^verbatim>\<open>suggest\<close> writes, with its two
  attributes, its content before the completion icon, and whether it carries the highlight
  class. The suggestion text is taken not to close the element it is written into.
\<close>

record item =
  item_setsize :: nat
  item_posinset :: nat
  item_content :: string
  item_highlighted :: bool

text \<open>
  An element of class \<^verbatim>\<open>ch-autoComplete-item\<close> that the page has put into the popover's
  container outside the suggestion list: its \<^verbatim>\<open>nodeName\<close> (\<^verbatim>\<open>LI\<close>, \<^verbatim>\<open>I\<close> or any other), its
  \<^verbatim>\<open>aria-posinset\<close> attribute (a decimal numeral, when present) and whether it carries the
  highlight class. Such elements are taken to be children of the container and to have no
  children themselves.
\<close>

datatype node = NodeLI | NodeI | NodeOther

record extra =
  extra_nodeName :: node
  extra_posinset :: "int option"
  extra_highlighted :: bool

text \<open>The options a caller may pass; an absent option takes its value from \<^verbatim>\<open>_defaults\<close>.\<close>

record conf =
  conf_keystrokesTime :: "nat option"
  conf_html :: "bool option"

record autocomplete =
  html :: bool
  keystrokesTime :: nat
  enabled :: bool
  touch :: bool
  el_value :: string
  el_focused :: bool
  trigger_loading :: bool
  keyinput_handlers :: nat
  popover_shown :: bool
  selected :: "int option"
  suggestions :: "string list"
  suggestionsQuantity :: nat
  originalQuery :: string
  currentQuery :: string
  list_items :: "item list"
  extra_items :: "extra list"
  stopTyping :: "nat option"
  now :: nat
  timers :: "timer list"
  next_timer :: nat
  events :: "event list"

section \<open>Timers\<close>

text \<open>
  \<^verbatim>\<open>window.setTimeout\<close> and \<^verbatim>\<open>window.clearTimeout\<close> over a clock in milliseconds. The
  identifier of the timer that \<open>setTimeout\<close> creates is \<open>next_timer\<close> of the state it is
  called in. Clearing \<^verbatim>\<open>undefined\<close> or a timer that has fired does nothing.
\<close>

definition setTimeout :: "callback \<Rightarrow> nat \<Rightarrow> autocomplete \<Rightarrow> autocomplete" where
  "setTimeout cb delay s =
     s\<lparr>timers := timers s @ [\<lparr>timer_id = next_timer s, deadline = now s + delay, callback = cb\<rparr>],
       next_timer := Suc (next_timer s)\<rparr>"

definition clearTimeout :: "nat option \<Rightarrow> autocomplete \<Rightarrow> autocomplete" where
  "clearTimeout h s = s\<lparr>timers := filter (\<lambda>t. Some (timer_id t) \<noteq> h) (timers s)\<rparr>"

section \<open>Events, the popover and the input element\<close>

definition log_event :: "event \<Rightarrow> autocomplete \<Rightarrow> autocomplete" where
  "log_event e s = s\<lparr>events := events s @ [e]\<rparr>"

text \<open>
  Modelled from the spec: the popover host (\<^verbatim>\<open>ch.Popover\<close>, not among the sources), which
  shows and hides the rendered list and answers whether it is shown.
\<close>

definition popover_show :: "autocomplete \<Rightarrow> autocomplete" where
  "popover_show s = s\<lparr>popover_shown := True\<rparr>"

definition popover_hide :: "autocomplete \<Rightarrow> autocomplete" where
  "popover_hide s = s\<lparr>popover_shown := False\<rparr>"

definition isShown :: "autocomplete \<Rightarrow> bool" where
  "isShown s = popover_shown s"

text \<open>\<^verbatim>\<open>hide\<close>: the widget binds no listener of its own to "hide".\<close>

definition hide :: "autocomplete \<Rightarrow> autocomplete" where
  "hide s = popover_hide (log_event Hide s)"

text \<open>The listener bound to "blur" on the input.\<close>

definition on_blur :: "autocomplete \<Rightarrow> autocomplete" where
  "on_blur s = (if enabled s then (hide s)\<lparr>keyinput_handlers := 0\<rparr> else s)"

text \<open>
  \<^verbatim>\<open>this._el.blur()\<close>: a focused input loses the focus and its "blur" listener runs; on an
  input without focus nothing happens.
\<close>

definition el_blur :: "autocomplete \<Rightarrow> autocomplete" where
  "el_blur s = (if el_focused s then on_blur (s\<lparr>el_focused := False\<rparr>) else s)"

text \<open>The listeners the widget binds to its own "disable" and "typing" events.\<close>

definition on_disable :: "autocomplete \<Rightarrow> autocomplete" where
  "on_disable s = (if isShown s then el_blur (hide s) else s)"

definition on_typing :: "string \<Rightarrow> autocomplete \<Rightarrow> autocomplete" where
  "on_typing q s = (if enabled s then s\<lparr>currentQuery := q, trigger_loading := True\<rparr> else s)"

text \<open>
  Modelled from the spec: \<^verbatim>\<open>emit\<close> of the widget base class (\<^verbatim>\<open>ch.Widget\<close>, not among the
  sources). The event is recorded and the widget's own listeners for it run at once.
\<close>

definition emit :: "event \<Rightarrow> autocomplete \<Rightarrow> autocomplete" where
  "emit e s =
     (case e of
        Disable \<Rightarrow> on_disable (log_event e s)
      | Typing q \<Rightarrow> on_typing q (log_event e s)
      | _ \<Rightarrow> log_event e s)"

text \<open>
  Modelled from the spec: \<^verbatim>\<open>disable\<close> of the widget base class, which moves the widget to
  its disabled state and announces it.
\<close>

definition disable :: "autocomplete \<Rightarrow> autocomplete" where
  "disable s = emit Disable (s\<lparr>enabled := False\<rparr>)"

section \<open>Highlighting and selection\<close>

datatype target =
    Outside
  | Item nat
  | ItemChild nat
  | ItemIcon nat
  | ItemNested nat
  | Extra nat

text \<open>
  The elements of the popover's container a pointer event can have as its target: the
  container or the list (\<open>Outside\<close>), the \<open>k\<close>-th rendered \<^verbatim>\<open>li\<close>, a child element of it
  other than the icon (the \<^verbatim>\<open>strong\<close> around a match), its completion icon \<^verbatim>\<open>i\<close>, an
  element deeper inside it, and the \<open>j\<close>-th extra item.
\<close>

definition target_exists :: "autocomplete \<Rightarrow> target \<Rightarrow> bool" where
  "target_exists s t =
     (case t of
        Outside \<Rightarrow> True
      | Item k \<Rightarrow> k < length (list_items s)
      | ItemChild k \<Rightarrow> k < length (list_items s)
      | ItemIcon k \<Rightarrow> k < length (list_items s)
      | ItemNested k \<Rightarrow> k < length (list_items s)
      | Extra j \<Rightarrow> j < length (extra_items s))"

text \<open>
  \<^verbatim>\<open>_toogleHighlighted\<close>: every element with an \<^verbatim>\<open>aria-posinset\<close> attribute loses the
  highlight class, and those whose attribute is \<open>_selected + 1\<close> get it.
\<close>

definition toogleHighlighted :: "autocomplete \<Rightarrow> autocomplete" where
  "toogleHighlighted s =
     (let current = map_option (\<lambda>k. k + 1) (selected s)
      in s\<lparr>list_items :=
             map (\<lambda>it. it\<lparr>item_highlighted := (Some (int (item_posinset it)) = current)\<rparr>)
               (list_items s),
           extra_items :=
             map (\<lambda>e. case extra_posinset e of
                         None \<Rightarrow> e
                       | Some p \<Rightarrow> e\<lparr>extra_highlighted := (Some p = current)\<rparr>)
               (extra_items s)\<rparr>)"

text \<open>
  The position label \<^verbatim>\<open>_select\<close> reads: that of the target when it has the attribute,
  otherwise that of the \<^verbatim>\<open>li[aria-posinset]\<close> the target lies in, if any.
\<close>

definition posinset_of :: "autocomplete \<Rightarrow> target \<Rightarrow> int option" where
  "posinset_of s t =
     (let label = (\<lambda>k. if k < length (list_items s)
                        then Some (int (item_posinset (list_items s ! k))) else None)
      in case t of
           Outside \<Rightarrow> None
         | Item k \<Rightarrow> label k
         | ItemChild k \<Rightarrow> label k
         | ItemIcon k \<Rightarrow> label k
         | ItemNested k \<Rightarrow> label k
         | Extra j \<Rightarrow> if j < length (extra_items s) then extra_posinset (extra_items s ! j) else None)"

definition select :: "target \<Rightarrow> autocomplete \<Rightarrow> autocomplete" where
  "select t s =
     toogleHighlighted
       (s\<lparr>selected := (case posinset_of s t of Some p \<Rightarrow> Some (p - 1) | None \<Rightarrow> None)\<rparr>)"

section \<open>Committing a suggestion\<close>

text \<open>
  \<^verbatim>\<open>this._suggestions[this._selected]\<close>: \<open>None\<close> is \<^verbatim>\<open>undefined\<close>, the value of the
  array at \<^verbatim>\<open>null\<close> and at every index outside it.
\<close>

definition suggestion_at :: "string list \<Rightarrow> int option \<Rightarrow> string option" where
  "suggestion_at xs sel =
     (case sel of
        None \<Rightarrow> None
      | Some k \<Rightarrow> if 0 \<le> k \<and> k < int (length xs) then Some (xs ! nat k) else None)"

text \<open>Assigning to the input's \<^verbatim>\<open>value\<close> converts to a string.\<close>

definition set_value :: "string option \<Rightarrow> autocomplete \<Rightarrow> autocomplete" where
  "set_value v s = s\<lparr>el_value := (case v of Some str \<Rightarrow> str | None \<Rightarrow> ''undefined'')\<rparr>"

definition setQuery :: "autocomplete \<Rightarrow> autocomplete" where
  "setQuery s =
     (let s1 = clearTimeout (stopTyping s) s
      in if selected s1 = None then s1
         else
           let s2 = (if \<not> html s1 then set_value (suggestion_at (suggestions s1) (selected s1)) s1
                     else s1)
           in el_blur (emit Select s2))"

text \<open>
  The second \<^verbatim>\<open>mousedown\<close> listener of the container. \<open>is_icon\<close> is
  \<^verbatim>\<open>event.target.nodeName === 'I'\<close>; \<open>in_item\<close> is the test that the target, or its parent
  element, is an \<^verbatim>\<open>li\<close> of class \<^verbatim>\<open>ch-autoComplete-item\<close>.
\<close>

definition is_icon :: "autocomplete \<Rightarrow> target \<Rightarrow> bool" where
  "is_icon s t =
     (case t of
        Outside \<Rightarrow> False
      | Item k \<Rightarrow> False
      | ItemChild k \<Rightarrow> False
      | ItemIcon k \<Rightarrow> True
      | ItemNested k \<Rightarrow> False
      | Extra j \<Rightarrow> j < length (extra_items s) \<and> extra_nodeName (extra_items s ! j) = NodeI)"

definition in_item :: "autocomplete \<Rightarrow> target \<Rightarrow> bool" where
  "in_item s t =
     (case t of
        Outside \<Rightarrow> False
      | Item k \<Rightarrow> True
      | ItemChild k \<Rightarrow> True
      | ItemIcon k \<Rightarrow> True
      | ItemNested k \<Rightarrow> False
      | Extra j \<Rightarrow> j < length (extra_items s) \<and> extra_nodeName (extra_items s ! j) = NodeLI)"

definition pointerdown :: "target \<Rightarrow> autocomplete \<Rightarrow> autocomplete" where
  "pointerdown t s =
     (if is_icon s t \<and> \<not> html s then
        (let s1 = set_value (suggestion_at (suggestions s) (selected s)) s
         in emit (Typing (el_value s1)) s1)
      else if in_item s t then setQuery s
      else s)"

text \<open>
  The two pointer events on the container. With \<^verbatim>\<open>ch.support.touch\<close> the highlighting
  listener is bound to \<^verbatim>\<open>mousedown\<close>, ahead of the committing one; without it, to
  \<^verbatim>\<open>mouseover\<close>. An event has an element of the document as its target.
\<close>

definition on_mouseover :: "target \<Rightarrow> autocomplete \<Rightarrow> autocomplete" where
  "on_mouseover t s = (if target_exists s t \<and> \<not> touch s then select t s else s)"

definition on_mousedown :: "target \<Rightarrow> autocomplete \<Rightarrow> autocomplete" where
  "on_mousedown t s =
     (if target_exists s t then pointerdown t (if touch s then select t s else s) else s)"

section \<open>Showing suggestions\<close>

definition show_popover :: "autocomplete \<Rightarrow> autocomplete" where
  "show_popover s = emit Show (popover_show s)"

text \<open>
  \<^verbatim>\<open>term.replace(matchedRegExp, ...)\<close>. A pattern outside the modelled fragment leaves the
  term as it is here; \<open>new_RegExp_escape_query\<close> below shows that \<^verbatim>\<open>suggest\<close> never
  builds one.
\<close>

definition String_replace :: "string option \<Rightarrow> string \<Rightarrow> string" where
  "String_replace re term = (case re of Some lit \<Rightarrow> replace_strong lit term | None \<Rightarrow> term)"

text \<open>The \<^verbatim>\<open>forEach\<close> over the suggestions, \<open>i\<close> being the index of the first of them.\<close>

fun render_items :: "bool \<Rightarrow> string option \<Rightarrow> nat \<Rightarrow> nat \<Rightarrow> string list \<Rightarrow> item list" where
  "render_items h re totalItems i [] = []"
| "render_items h re totalItems i (term # rest) =
     \<lparr>item_setsize = totalItems, item_posinset = i + 1,
      item_content = (if \<not> h then String_replace re term else term),
      item_highlighted = False\<rparr> # render_items h re totalItems (i + 1) rest"

text \<open>The markup pushed for one item, and the \<^verbatim>\<open>innerHTML\<close> of the list.\<close>

definition li_markup :: "item \<Rightarrow> string" where
  \<open>li_markup it =
     ''<li aria-setsize="'' @ show_nat (item_setsize it) @ ''" aria-posinset="''
       @ show_nat (item_posinset it) @ ''" class="ch-autoComplete-item">'' @ item_content it
       @ ''<i class="ch-icon-arrow-up" data-js="ch-autoComplete-complete-query"></i></li>''\<close>

definition innerHTML :: "autocomplete \<Rightarrow> string" where
  "innerHTML s = concat (map li_markup (list_items s))"

text \<open>The \<^verbatim>\<open>each\<close> over the extra items: they are numbered behind the suggestions.\<close>

fun renumber :: "nat \<Rightarrow> nat \<Rightarrow> extra list \<Rightarrow> extra list" where
  "renumber n index [] = []"
| "renumber n index (e # es) =
     e\<lparr>extra_posinset := Some (int (n + index + 1))\<rparr> # renumber n (index + 1) es"

definition suggest :: "string list \<Rightarrow> autocomplete \<Rightarrow> autocomplete" where
  "suggest list s =
     (let query = escape_query (el_value s);
          matchedRegExp = new_RegExp (''('' @ query @ '')'');
          s1 = s\<lparr>trigger_loading := False\<rparr>
      in if length list = 0 \<or> query = [] then popover_hide s1
         else
           let s2 = (if \<not> isShown s1 \<and> el_focused s1 then show_popover s1 else s1);
               s3 = s2\<lparr>list_items := [], suggestions := list\<rparr>;
               extraItems = extra_items s3;
               totalItems = (if length extraItems > 0 then 0 + length extraItems - 1
                             else length (suggestions s3));
               items = render_items (html s3) matchedRegExp totalItems 0 (suggestions s3)
           in s3\<lparr>extra_items := renumber (length (suggestions s3)) 0 extraItems,
                 selected := None,
                 list_items := items,
                 suggestionsQuantity := length items + length extraItems\<rparr>)"

section \<open>Focus, keystrokes and the clock\<close>

text \<open>The listener bound to "focus" on the input, and the input gaining the focus.\<close>

definition on_focus :: "autocomplete \<Rightarrow> autocomplete" where
  "on_focus s =
     (if enabled s
      then s\<lparr>originalQuery := el_value s, keyinput_handlers := Suc (keyinput_handlers s)\<rparr>
      else s)"

definition el_focus :: "autocomplete \<Rightarrow> autocomplete" where
  "el_focus s = (if el_focused s then s else on_focus (s\<lparr>el_focused := True\<rparr>))"

text \<open>The listener that "focus" binds to \<^verbatim>\<open>ch.onkeyinput\<close>.\<close>

definition on_keyinput :: "autocomplete \<Rightarrow> autocomplete" where
  "on_keyinput s =
     (let s1 = clearTimeout (stopTyping s) s
      in (setTimeout EmitTyping 400 s1)\<lparr>stopTyping := Some (next_timer s1)\<rparr>)"

text \<open>
  A keystroke: the input's text becomes \<open>v\<close> and every bound listener runs (one for each
  "focus" since the last "blur" that unbound them).
\<close>

definition keystroke :: "string \<Rightarrow> autocomplete \<Rightarrow> autocomplete" where
  "keystroke v s = (on_keyinput ^^ keyinput_handlers s) (s\<lparr>el_value := v\<rparr>)"

definition run_callback :: "callback \<Rightarrow> autocomplete \<Rightarrow> autocomplete" where
  "run_callback cb s =
     (case cb of
        EmitReady \<Rightarrow> emit Ready s
      | EmitTyping \<Rightarrow> emit (Typing (el_value s)) s)"

text \<open>
  \<open>d\<close> milliseconds pass: the timers whose deadline is reached fire, earlier deadlines
  first and equal ones in the order of their creation. No callback of the widget sets a
  timer, clears one or reads the clock.
\<close>

definition advance :: "nat \<Rightarrow> autocomplete \<Rightarrow> autocomplete" where
  "advance d s =
     (let due = sort_key deadline (filter (\<lambda>t. deadline t \<le> now s + d) (timers s));
          s1 = s\<lparr>timers := filter (\<lambda>t. \<not> deadline t \<le> now s + d) (timers s), now := now s + d\<rparr>
      in fold (\<lambda>t. run_callback (callback t)) due s1)"

section \<open>Construction\<close>

text \<open>
  \<^verbatim>\<open>_init\<close> on an input with text \<open>v\<close>. The merge of the options with \<^verbatim>\<open>_defaults\<close> and the
  enabled flag are those of the widget base class.
\<close>

definition default_keystrokesTime :: nat where
  "default_keystrokesTime = 1000"

definition default_html :: bool where
  "default_html = False"

definition init :: "conf \<Rightarrow> string \<Rightarrow> bool \<Rightarrow> bool \<Rightarrow> autocomplete" where
  "init c v focused tch =
     \<lparr>html = (case conf_html c of Some b \<Rightarrow> b | None \<Rightarrow> default_html),
      keystrokesTime = (case conf_keystrokesTime c of Some n \<Rightarrow> n | None \<Rightarrow> default_keystrokesTime),
      enabled = True,
      touch = tch,
      el_value = v,
      el_focused = focused,
      trigger_loading = False,
      keyinput_handlers = 0,
      popover_shown = False,
      selected = None,
      suggestions = [],
      suggestionsQuantity = 0,
      originalQuery = v,
      currentQuery = v,
      list_items = [],
      extra_items = [],
      stopTyping = None,
      now = 0,
      timers = [],
      next_timer = 0,
      events = []\<rparr>"

definition AutoComplete :: "conf \<Rightarrow> string \<Rightarrow> bool \<Rightarrow> bool \<Rightarrow> autocomplete" where
  "AutoComplete c v focused tch = setTimeout EmitReady 50 (init c v focused tch)"


section \<open>Operations as steps\<close>

datatype action =
    Suggest "string list"
  | MouseOver target
  | MouseDown target
  | CallHide
  | CallDisable
  | Focus
  | Blur
  | Keystroke string
  | Advance nat

definition step :: "action \<Rightarrow> autocomplete \<Rightarrow> autocomplete" where
  "step a s =
     (case a of
        Suggest list \<Rightarrow> suggest list s
      | MouseOver t \<Rightarrow> on_mouseover t s
      | MouseDown t \<Rightarrow> on_mousedown t s
      | CallHide \<Rightarrow> hide s
      | CallDisable \<Rightarrow> disable s
      | Focus \<Rightarrow> el_focus s
      | Blur \<Rightarrow> el_blur s
      | Keystroke v \<Rightarrow> keystroke v s
      | Advance d \<Rightarrow> advance d s)"

definition run :: "action list \<Rightarrow> autocomplete \<Rightarrow> autocomplete" where
  "run as s = fold step as s"

section \<open>States used as examples\<close>

text \<open>
  A widget with the default options on an empty, unfocused input of a device without touch:
  the input is focused and "ca" is typed (\<open>typed_ca\<close>); the caller then suggests "cat" and
  "car" (\<open>shown_cat_car\<close>) and the pointer moves over the second item (\<open>hover_car\<close>).
  \<open>hover_car_html\<close> is the same for a widget with the option \<^verbatim>\<open>html\<close> on.
\<close>

definition typed_ca :: autocomplete where
  "typed_ca =
     keystroke ''ca''
       (el_focus (AutoComplete \<lparr>conf_keystrokesTime = None, conf_html = None\<rparr> [] False False))"

definition shown_cat_car :: autocomplete where
  "shown_cat_car = suggest [''cat'', ''car''] typed_ca"

definition hover_car :: autocomplete where
  "hover_car = on_mouseover (Item 1) shown_cat_car"

definition hover_car_html :: autocomplete where
  "hover_car_html =
     on_mouseover (Item 1)
       (suggest [''cat'', ''car'']
         (keystroke ''ca''
           (el_focus
             (AutoComplete \<lparr>conf_keystrokesTime = None, conf_html = Some True\<rparr> [] False False))))"

text \<open>
  A widget on an input that holds "a": the input is focused and "ab" is typed (\<open>typed_ab\<close>).
  A widget given 200 for the option \<^verbatim>\<open>keystrokesTime\<close>, focused, with "a" typed
  (\<open>typed_a_200\<close>). The page adds one extra item to the container of \<open>typed_ca\<close>, the caller
  suggests "cat" and "car" and the pointer moves over the extra item (\<open>hover_extra\<close>).
\<close>

definition typed_ab :: autocomplete where
  "typed_ab =
     keystroke ''ab''
       (el_focus (AutoComplete \<lparr>conf_keystrokesTime = None, conf_html = None\<rparr> ''a'' False False))"

definition typed_a_200 :: autocomplete where
  "typed_a_200 =
     keystroke ''a''
       (el_focus (AutoComplete \<lparr>conf_keystrokesTime = Some 200, conf_html = None\<rparr> [] False False))"


text \<open>
  The default widget right after its empty input gained the focus (\<open>focused_empty\<close>), and
  the default widget made on an empty input that has the focus already (\<open>made_focused\<close>).
\<close>

definition focused_empty :: autocomplete where
  "focused_empty =
     el_focus (AutoComplete \<lparr>conf_keystrokesTime = None, conf_html = None\<rparr> [] False False)"

definition made_focused :: autocomplete where
  "made_focused =
     AutoComplete \<lparr>conf_keystrokesTime = None, conf_html = None\<rparr> [] True False"

section \<open>Predicates of the properties\<close>

text \<open>The "typing" events of a log, and the timers that will emit one.\<close>

definition is_typing :: "event \<Rightarrow> bool" where
  "is_typing e = (case e of Typing q \<Rightarrow> True | _ \<Rightarrow> False)"

definition is_typing_timer :: "timer \<Rightarrow> bool" where
  "is_typing_timer t \<longleftrightarrow> callback t = EmitTyping"

text \<open>
  Every pending timer has an identifier below the next one to be handed out, and the only
  pending timers that emit "typing" are those recorded in \<^verbatim>\<open>_stopTyping\<close>. This holds in
  every state the widget reaches (\<open>reachable_timers_tracked\<close> below).
\<close>

definition timers_tracked :: "autocomplete \<Rightarrow> bool" where
  "timers_tracked s \<longleftrightarrow>
     (\<forall>t \<in> set (timers s). timer_id t < next_timer s
        \<and> (is_typing_timer t \<longrightarrow> stopTyping s = Some (timer_id t)))"

text \<open>Exactly one timer that emits "typing" is pending: the recorded one, due at \<open>d\<close>.\<close>

definition armed :: "nat \<Rightarrow> autocomplete \<Rightarrow> bool" where
  "armed d s \<longleftrightarrow>
     (\<forall>t \<in> set (timers s). timer_id t < next_timer s)
     \<and> (\<exists>h. stopTyping s = Some h
           \<and> filter is_typing_timer (timers s) = [\<lparr>timer_id = h, deadline = d, callback = EmitTyping\<rparr>])"

text \<open>
  A run of keystrokes, each given with the time that passes before it and the text of the
  input after it.
\<close>

fun type_keys :: "(nat \<times> string) list \<Rightarrow> autocomplete \<Rightarrow> autocomplete" where
  "type_keys [] s = s"
| "type_keys ((gap, v) # ks) s = type_keys ks (keystroke v (advance gap s))"

text \<open>
  The selected index is null or a position of the stored suggestions; the rendered items
  carry the labels 1, 2, ... of the stored suggestions.
\<close>

definition selected_valid :: "autocomplete \<Rightarrow> bool" where
  "selected_valid s \<longleftrightarrow>
     (case selected s of None \<Rightarrow> True | Some k \<Rightarrow> 0 \<le> k \<and> k < int (length (suggestions s)))"

definition labels_consistent :: "autocomplete \<Rightarrow> bool" where
  "labels_consistent s \<longleftrightarrow> map item_posinset (list_items s) = map Suc [0..<length (suggestions s)]"

section \<open>Basic facts\<close>

lemma escape_query_Nil_iff: "escape_query v = [] \<longleftrightarrow> v = []"
  by (cases v) (auto simp: escape_query_def)

lemma length_render_items: "length (render_items h re n i xs) = length xs"
  by (induction xs arbitrary: i) auto

section \<open>Empty list or empty query\<close>

text \<open>
  C3. A call of \<open>suggest\<close> with an empty list, or while the escaped text of the input is
  empty, leaves the popover hidden and renders nothing: the items of the list element, its
  markup, the stored suggestions and the selected index are those from before the call, and
  no event is emitted.
\<close>

theorem suggest_empty_hides:
  assumes "list = [] \<or> escape_query (el_value s) = []"
  shows "\<not> isShown (suggest list s) \<and> list_items (suggest list s) = list_items s
    \<and> innerHTML (suggest list s) = innerHTML s
    \<and> suggestions (suggest list s) = suggestions s
    \<and> selected (suggest list s) = selected s
    \<and> events (suggest list s) = events s"
  using assms by (auto simp: suggest_def popover_hide_def isShown_def innerHTML_def Let_def)

theorem suggest_empty_hides_witness:
  "isShown shown_cat_car \<and> \<not> isShown (suggest [] shown_cat_car)
    \<and> list_items (suggest [] shown_cat_car) = list_items shown_cat_car"
proof -
  have "([] :: string list) = [] \<or> escape_query (el_value shown_cat_car) = []"
    by simp
  from suggest_empty_hides [OF this]
  have "\<not> isShown (suggest [] shown_cat_car)
    \<and> list_items (suggest [] shown_cat_car) = list_items shown_cat_car"
    by simp
  moreover have "isShown shown_cat_car"
    by code_simp
  ultimately show ?thesis by simp
qed

section \<open>A new list replaces the old one\<close>

text \<open>
  C7. A call of \<open>suggest\<close> with a non-empty list, while the input's text is not empty, stores
  exactly the new list as the suggestions (whatever was stored before), renders one item for
  each of its entries, and resets the selected index to null.
\<close>

theorem suggest_replaces:
  assumes "list \<noteq> []" and "el_value s \<noteq> []"
  shows "suggestions (suggest list s) = list \<and> selected (suggest list s) = None
    \<and> length (list_items (suggest list s)) = length list"
  using assms
  by (simp add: suggest_def Let_def escape_query_Nil_iff length_render_items show_popover_def
      emit_def log_event_def popover_show_def)

theorem suggest_replaces_witness:
  "suggestions hover_car = [''cat'', ''car''] \<and> selected hover_car = Some 1
    \<and> suggestions (suggest [''dog''] hover_car) = [''dog'']
    \<and> selected (suggest [''dog''] hover_car) = None"
proof -
  have h1: "[''dog''] \<noteq> []"
    by simp
  have h2: "el_value hover_car \<noteq> []"
    by code_simp
  have "suggestions hover_car = [''cat'', ''car''] \<and> selected hover_car = Some 1"
    by code_simp
  with suggest_replaces [OF h1 h2] show ?thesis
    by simp
qed

section \<open>Showing the popover\<close>



section \<open>Disabling\<close>

text \<open>
  C8. When the widget is shown, the listener of "disable" hides the popover and takes the
  focus from the input, whatever the enabled flag is when the event is emitted; so does
  \<open>disable\<close>.
\<close>

theorem disable_hides_and_blurs:
  assumes "isShown s"
  shows "\<not> isShown (emit Disable s) \<and> \<not> el_focused (emit Disable s)
    \<and> \<not> isShown (disable s) \<and> \<not> el_focused (disable s)"
  using assms
  by (simp add: disable_def emit_def on_disable_def el_blur_def on_blur_def hide_def
      popover_hide_def log_event_def isShown_def)

theorem disable_hides_and_blurs_witness:
  "isShown shown_cat_car \<and> el_focused shown_cat_car
    \<and> \<not> isShown (disable shown_cat_car) \<and> \<not> el_focused (disable shown_cat_car)"
proof -
  have h: "isShown shown_cat_car" and f: "el_focused shown_cat_car"
    by code_simp+
  from disable_hides_and_blurs [OF h] h f show ?thesis
    by simp
qed

section \<open>The debounce timer\<close>

lemma armed_tracked: "armed d s \<Longrightarrow> timers_tracked s"
proof -
  assume a: "armed d s"
  then obtain h where h: "stopTyping s = Some h"
    and f: "filter is_typing_timer (timers s) = [\<lparr>timer_id = h, deadline = d, callback = EmitTyping\<rparr>]"
    and lt: "\<forall>t \<in> set (timers s). timer_id t < next_timer s"
    by (auto simp: armed_def)
  have "timer_id t = h" if "t \<in> set (timers s)" "is_typing_timer t" for t
  proof -
    from that have "t \<in> set (filter is_typing_timer (timers s))" by simp
    with f show ?thesis by simp
  qed
  with h lt show ?thesis by (auto simp: timers_tracked_def)
qed

lemma on_keyinput_frame:
  "now (on_keyinput s) = now s" "el_value (on_keyinput s) = el_value s"
  "events (on_keyinput s) = events s" "keyinput_handlers (on_keyinput s) = keyinput_handlers s"
  by (simp_all add: on_keyinput_def setTimeout_def clearTimeout_def Let_def)

lemma on_keyinput_armed:
  assumes "timers_tracked s"
  shows "armed (now s + 400) (on_keyinput s)"
proof -
  have "filter is_typing_timer (filter (\<lambda>t. Some (timer_id t) \<noteq> stopTyping s) (timers s)) = []"
    using assms by (auto simp: timers_tracked_def filter_empty_conv)
  moreover have "\<forall>t \<in> set (timers s). timer_id t < Suc (next_timer s)"
    using assms by (auto simp: timers_tracked_def less_Suc_eq)
  ultimately show ?thesis
    by (simp add: armed_def on_keyinput_def setTimeout_def clearTimeout_def Let_def
        is_typing_timer_def)
qed

lemma funpow_keyinput_frame:
  "now ((on_keyinput ^^ n) s) = now s \<and> el_value ((on_keyinput ^^ n) s) = el_value s
   \<and> events ((on_keyinput ^^ n) s) = events s
   \<and> keyinput_handlers ((on_keyinput ^^ n) s) = keyinput_handlers s"
  by (induction n) (simp_all add: on_keyinput_frame)

lemma funpow_keyinput_armed:
  assumes "timers_tracked s" and "0 < n"
  shows "armed (now s + 400) ((on_keyinput ^^ n) s)"
  using assms(2)
proof (induction n)
  case 0
  then show ?case by simp
next
  case (Suc m)
  show ?case
  proof (cases "m = 0")
    case True
    with assms(1) show ?thesis by (simp add: on_keyinput_armed)
  next
    case False
    with Suc.IH have "armed (now s + 400) ((on_keyinput ^^ m) s)" by simp
    then have "timers_tracked ((on_keyinput ^^ m) s)" by (rule armed_tracked)
    from on_keyinput_armed [OF this] show ?thesis
      by (simp add: funpow_keyinput_frame)
  qed
qed

lemma keystroke_armed:
  assumes "timers_tracked s" and "0 < keyinput_handlers s"
  shows "armed (now s + 400) (keystroke v s)"
proof -
  have "timers_tracked (s\<lparr>el_value := v\<rparr>)"
    using assms(1) by (simp add: timers_tracked_def)
  from funpow_keyinput_armed [OF this assms(2)] show ?thesis
    by (simp add: keystroke_def)
qed

lemma keystroke_frame:
  "now (keystroke v s) = now s" "el_value (keystroke v s) = v"
  "events (keystroke v s) = events s" "keyinput_handlers (keystroke v s) = keyinput_handlers s"
  by (simp_all add: keystroke_def funpow_keyinput_frame)

lemma run_callback_frame:
  "timers (run_callback cb s) = timers s" "now (run_callback cb s) = now s"
  "next_timer (run_callback cb s) = next_timer s" "stopTyping (run_callback cb s) = stopTyping s"
  "el_value (run_callback cb s) = el_value s"
  "keyinput_handlers (run_callback cb s) = keyinput_handlers s"
  by (cases cb; simp add: run_callback_def emit_def log_event_def on_typing_def)+

lemma run_callback_typing:
  "filter is_typing (events (run_callback cb s)) =
     filter is_typing (events s) @ (if cb = EmitTyping then [Typing (el_value s)] else [])"
  by (cases cb) (simp_all add: run_callback_def emit_def log_event_def on_typing_def is_typing_def)

lemma fold_callbacks_frame:
  "timers (fold (\<lambda>t. run_callback (callback t)) ts s) = timers s
   \<and> now (fold (\<lambda>t. run_callback (callback t)) ts s) = now s
   \<and> next_timer (fold (\<lambda>t. run_callback (callback t)) ts s) = next_timer s
   \<and> stopTyping (fold (\<lambda>t. run_callback (callback t)) ts s) = stopTyping s
   \<and> el_value (fold (\<lambda>t. run_callback (callback t)) ts s) = el_value s
   \<and> keyinput_handlers (fold (\<lambda>t. run_callback (callback t)) ts s) = keyinput_handlers s"
  by (induction ts arbitrary: s) (simp_all add: run_callback_frame)

lemma fold_callbacks_typing:
  "filter is_typing (events (fold (\<lambda>t. run_callback (callback t)) ts s)) =
     filter is_typing (events s)
       @ replicate (length (filter is_typing_timer ts)) (Typing (el_value s))"
  by (induction ts arbitrary: s)
    (simp_all add: run_callback_typing run_callback_frame is_typing_timer_def)

lemma advance_frame:
  "now (advance g s) = now s + g" "el_value (advance g s) = el_value s"
  "keyinput_handlers (advance g s) = keyinput_handlers s"
  "next_timer (advance g s) = next_timer s" "stopTyping (advance g s) = stopTyping s"
  "timers (advance g s) = filter (\<lambda>t. \<not> deadline t \<le> now s + g) (timers s)"
  by (simp_all add: advance_def Let_def fold_callbacks_frame)

lemma advance_typing:
  "filter is_typing (events (advance g s)) =
     filter is_typing (events s)
       @ replicate (length (filter (\<lambda>t. deadline t \<le> now s + g) (filter is_typing_timer (timers s))))
           (Typing (el_value s))"
proof -
  have "length (filter is_typing_timer (sort_key deadline (filter (\<lambda>t. deadline t \<le> now s + g) (timers s))))
      = length (filter (\<lambda>t. deadline t \<le> now s + g) (filter is_typing_timer (timers s)))"
    by (simp add: filter_sort conj_commute)
  then show ?thesis
    by (simp add: advance_def Let_def fold_callbacks_typing)
qed

lemma advance_armed:
  assumes "armed d s" and "now s + g < d"
  shows "armed d (advance g s)"
    and "filter is_typing (events (advance g s)) = filter is_typing (events s)"
proof -
  from assms(1) obtain h where h: "stopTyping s = Some h"
    and f: "filter is_typing_timer (timers s) = [\<lparr>timer_id = h, deadline = d, callback = EmitTyping\<rparr>]"
    and lt: "\<forall>t \<in> set (timers s). timer_id t < next_timer s"
    by (auto simp: armed_def)
  have "filter is_typing_timer (filter (\<lambda>t. \<not> deadline t \<le> now s + g) (timers s))
      = filter (\<lambda>t. \<not> deadline t \<le> now s + g) (filter is_typing_timer (timers s))"
    by (simp add: conj_commute)
  also have "\<dots> = [\<lparr>timer_id = h, deadline = d, callback = EmitTyping\<rparr>]"
    using assms(2) by (simp add: f)
  finally show "armed d (advance g s)"
    using h lt by (simp add: armed_def advance_frame)
  show "filter is_typing (events (advance g s)) = filter is_typing (events s)"
    using assms(2) by (simp add: advance_typing f)
qed

lemma advance_fires:
  assumes "armed d s" and "d \<le> now s + g"
  shows "filter is_typing (events (advance g s)) = filter is_typing (events s) @ [Typing (el_value s)]"
proof -
  from assms(1) obtain h where
    f: "filter is_typing_timer (timers s) = [\<lparr>timer_id = h, deadline = d, callback = EmitTyping\<rparr>]"
    by (auto simp: armed_def)
  show ?thesis
    using assms(2) by (simp add: advance_typing f)
qed

lemma type_keys_armed:
  assumes "armed (now s + 400) s" and "0 < keyinput_handlers s"
    and "\<forall>(gap, v) \<in> set ks. gap < 400"
  shows "armed (now (type_keys ks s) + 400) (type_keys ks s)
    \<and> filter is_typing (events (type_keys ks s)) = filter is_typing (events s)
    \<and> el_value (type_keys ks s) = last (el_value s # map snd ks)"
  using assms
proof (induction ks arbitrary: s)
  case Nil
  then show ?case by simp
next
  case (Cons k ks)
  obtain gap v where k: "k = (gap, v)" by (cases k)
  with Cons.prems have gap: "gap < 400" by simp
  let ?a = "advance gap s"
  let ?b = "keystroke v ?a"
  from gap have "now s + gap < now s + 400" by simp
  from advance_armed [OF Cons.prems(1) this]
  have a: "armed (now s + 400) ?a" and ae: "filter is_typing (events ?a) = filter is_typing (events s)"
    by simp_all
  have ah: "0 < keyinput_handlers ?a"
    using Cons.prems(2) by (simp add: advance_frame)
  from keystroke_armed [OF armed_tracked [OF a] ah]
  have b: "armed (now ?b + 400) ?b" by (simp add: keystroke_frame)
  have bh: "0 < keyinput_handlers ?b" using ah by (simp add: keystroke_frame)
  have rest: "\<forall>(gap, v) \<in> set ks. gap < 400" using Cons.prems(3) by simp
  from Cons.IH [OF b bh rest] ae show ?case
    by (simp add: k keystroke_frame)
qed

text \<open>
  The "focus" listener binds the listener of keystrokes when the widget is enabled.
\<close>

lemma el_focus_binds:
  "enabled s \<Longrightarrow> \<not> el_focused s \<Longrightarrow> keyinput_handlers (el_focus s) = Suc (keyinput_handlers s)"
  by (simp add: el_focus_def on_focus_def)

text \<open>
  C2, as amended. While the listener of keystrokes is bound (the input gained the focus with
  the widget enabled and no blur has unbound it) and the pending "typing" timers are those
  recorded in \<^verbatim>\<open>_stopTyping\<close>, a keystroke followed by further keystrokes, each less than
  400 ms after the one before, leaves exactly one pending "typing" timer, due 400 ms after
  the last keystroke: every keystroke has replaced the timer of the one before. Until 400 ms
  have passed since the last keystroke no "typing" event has been emitted; once they have,
  exactly one has, and it carries the text of the last keystroke.
\<close>

theorem debounce_one_typing:
  assumes "timers_tracked s" and "0 < keyinput_handlers s"
    and "\<forall>(gap, v) \<in> set ks. gap < 400"
  shows "map deadline (filter is_typing_timer (timers (type_keys ks (keystroke v0 s))))
      = [now (type_keys ks (keystroke v0 s)) + 400]
    \<and> (\<forall>d. filter is_typing (events (advance d (type_keys ks (keystroke v0 s)))) =
          filter is_typing (events s)
            @ (if d < 400 then [] else [Typing (last (v0 # map snd ks))]))"
proof -
  let ?k = "keystroke v0 s"
  let ?e = "type_keys ks ?k"
  have k: "armed (now ?k + 400) ?k"
    using keystroke_armed [OF assms(1) assms(2)] by (simp add: keystroke_frame)
  have kh: "0 < keyinput_handlers ?k" using assms(2) by (simp add: keystroke_frame)
  from type_keys_armed [OF k kh assms(3)]
  have e: "armed (now ?e + 400) ?e"
    and ee: "filter is_typing (events ?e) = filter is_typing (events s)"
    and ev: "el_value ?e = last (v0 # map snd ks)"
    by (simp_all add: keystroke_frame)
  from e have "map deadline (filter is_typing_timer (timers ?e)) = [now ?e + 400]"
    by (auto simp: armed_def)
  moreover have "filter is_typing (events (advance d ?e)) =
      filter is_typing (events s) @ (if d < 400 then [] else [Typing (last (v0 # map snd ks))])" for d
  proof (cases "d < 400")
    case True
    then have "now ?e + d < now ?e + 400" by simp
    from advance_armed(2) [OF e this] ee True show ?thesis by simp
  next
    case False
    then have "now ?e + 400 \<le> now ?e + d" by simp
    from advance_fires [OF e this] ee ev False show ?thesis by simp
  qed
  ultimately show ?thesis by blast
qed

theorem debounce_one_typing_witness:
  "0 < keyinput_handlers focused_empty
    \<and> filter is_typing
        (events (advance 399 (type_keys [(100, ''ca''), (399, ''cat'')] (keystroke ''c'' focused_empty)))) = []
    \<and> filter is_typing
        (events (advance 400 (type_keys [(100, ''ca''), (399, ''cat'')] (keystroke ''c'' focused_empty))))
        = [Typing ''cat'']"
proof -
  have h1: "timers_tracked focused_empty" and h2: "0 < keyinput_handlers focused_empty"
    by code_simp+
  have h3: "\<forall>(gap, v) \<in> set [(100, ''ca''), (399, ''cat'')]. gap < (400::nat)"
    by simp
  have e: "events focused_empty = []"
    by code_simp
  from debounce_one_typing [OF h1 h2 h3, of "''c''"] h2 e show ?thesis
    by simp
qed

text \<open>
  C2 as stated fails for a widget made on an input that has the focus already: the widget
  is enabled and its input focused, but no "focus" event has bound the listener of
  keystrokes, so two keystrokes 100 ms apart set no timer and no "typing" is emitted 400 ms
  after the second, nor later.
\<close>

theorem keystrokes_unheard_before_focus:
  "enabled made_focused \<and> el_focused made_focused
    \<and> el_value (type_keys [(100, ''ca'')] (keystroke ''c'' made_focused)) = ''ca''
    \<and> filter is_typing_timer (timers (type_keys [(100, ''ca'')] (keystroke ''c'' made_focused))) = []
    \<and> filter is_typing
        (events (advance 400 (type_keys [(100, ''ca'')] (keystroke ''c'' made_focused)))) = []
    \<and> filter is_typing
        (events (advance 5000 (type_keys [(100, ''ca'')] (keystroke ''c'' made_focused)))) = []"
  by code_simp

text \<open>
  No operation leaves a "typing" timer pending that \<^verbatim>\<open>_stopTyping\<close> does not record, so the
  hypothesis on the timers above holds in every state reached from a new widget.
\<close>

lemma tracked_subset:
  assumes "set (timers s') \<subseteq> set (timers s) \<and> next_timer s' = next_timer s \<and> stopTyping s' = stopTyping s"
    and "timers_tracked s"
  shows "timers_tracked s'"
  using assms by (auto simp: timers_tracked_def)

lemma hide_timer_frame:
  "set (timers (hide s)) \<subseteq> set (timers s) \<and> next_timer (hide s) = next_timer s
    \<and> stopTyping (hide s) = stopTyping s"
  by (simp add: hide_def popover_hide_def log_event_def)

lemma el_blur_timer_frame:
  "set (timers (el_blur s)) \<subseteq> set (timers s) \<and> next_timer (el_blur s) = next_timer s
    \<and> stopTyping (el_blur s) = stopTyping s"
  by (simp add: el_blur_def on_blur_def hide_def popover_hide_def log_event_def)

lemma emit_timer_frame:
  "set (timers (emit e s)) \<subseteq> set (timers s) \<and> next_timer (emit e s) = next_timer s
    \<and> stopTyping (emit e s) = stopTyping s"
  by (cases e)
    (simp_all add: emit_def log_event_def on_typing_def on_disable_def el_blur_def on_blur_def
      hide_def popover_hide_def)

lemma disable_timer_frame:
  "set (timers (disable s)) \<subseteq> set (timers s) \<and> next_timer (disable s) = next_timer s
    \<and> stopTyping (disable s) = stopTyping s"
  using emit_timer_frame [of Disable "s\<lparr>enabled := False\<rparr>"] by (simp add: disable_def)

lemma el_focus_timer_frame:
  "set (timers (el_focus s)) \<subseteq> set (timers s) \<and> next_timer (el_focus s) = next_timer s
    \<and> stopTyping (el_focus s) = stopTyping s"
  by (simp add: el_focus_def on_focus_def)

lemma select_timer_frame:
  "set (timers (select t s)) \<subseteq> set (timers s) \<and> next_timer (select t s) = next_timer s
    \<and> stopTyping (select t s) = stopTyping s"
  by (simp add: select_def toogleHighlighted_def Let_def)

lemma suggest_timer_frame:
  "set (timers (suggest list s)) \<subseteq> set (timers s) \<and> next_timer (suggest list s) = next_timer s
    \<and> stopTyping (suggest list s) = stopTyping s"
  by (simp add: suggest_def Let_def popover_hide_def show_popover_def emit_def log_event_def
      popover_show_def)

lemma setQuery_timer_frame:
  "set (timers (setQuery s)) \<subseteq> set (timers s) \<and> next_timer (setQuery s) = next_timer s
    \<and> stopTyping (setQuery s) = stopTyping s"
proof -
  let ?c = "clearTimeout (stopTyping s) s"
  have c: "set (timers ?c) \<subseteq> set (timers s) \<and> next_timer ?c = next_timer s
    \<and> stopTyping ?c = stopTyping s"
    by (auto simp: clearTimeout_def)
  have "set (timers (el_blur (emit Select s2))) \<subseteq> set (timers s2)
    \<and> next_timer (el_blur (emit Select s2)) = next_timer s2
    \<and> stopTyping (el_blur (emit Select s2)) = stopTyping s2" for s2
    using el_blur_timer_frame [of "emit Select s2"] emit_timer_frame [of Select s2] by auto
  from this [of ?c] this [of "set_value (suggestion_at (suggestions ?c) (selected ?c)) ?c"] c
  show ?thesis
    by (auto simp: setQuery_def Let_def set_value_def)
qed

lemma pointerdown_timer_frame:
  "set (timers (pointerdown t s)) \<subseteq> set (timers s) \<and> next_timer (pointerdown t s) = next_timer s
    \<and> stopTyping (pointerdown t s) = stopTyping s"
  using setQuery_timer_frame [of s]
    emit_timer_frame [of "Typing (el_value (set_value (suggestion_at (suggestions s) (selected s)) s))"
      "set_value (suggestion_at (suggestions s) (selected s)) s"]
  by (auto simp: pointerdown_def Let_def set_value_def)

lemma step_tracked:
  assumes "timers_tracked s"
  shows "timers_tracked (step a s)"
proof (cases a)
  case (Suggest list)
  with tracked_subset [OF suggest_timer_frame assms] show ?thesis by (simp add: step_def)
next
  case (MouseOver t)
  with tracked_subset [OF select_timer_frame assms] assms show ?thesis
    by (simp add: step_def on_mouseover_def)
next
  case (MouseDown t)
  have m: "timers_tracked (if touch s then select t s else s)"
    using tracked_subset [OF select_timer_frame assms] assms by simp
  from tracked_subset [OF pointerdown_timer_frame m] MouseDown assms show ?thesis
    by (simp add: step_def on_mousedown_def)
next
  case CallHide
  with tracked_subset [OF hide_timer_frame assms] show ?thesis by (simp add: step_def)
next
  case CallDisable
  with tracked_subset [OF disable_timer_frame assms] show ?thesis by (simp add: step_def)
next
  case Focus
  with tracked_subset [OF el_focus_timer_frame assms] show ?thesis by (simp add: step_def)
next
  case Blur
  with tracked_subset [OF el_blur_timer_frame assms] show ?thesis by (simp add: step_def)
next
  case (Keystroke v)
  show ?thesis
  proof (cases "keyinput_handlers s = 0")
    case True
    with assms Keystroke show ?thesis
      by (simp add: step_def keystroke_def timers_tracked_def)
  next
    case False
    then have "0 < keyinput_handlers s" by simp
    from armed_tracked [OF keystroke_armed [OF assms this]] Keystroke show ?thesis
      by (simp add: step_def)
  qed
next
  case (Advance d)
  have "set (timers (advance d s)) \<subseteq> set (timers s) \<and> next_timer (advance d s) = next_timer s
    \<and> stopTyping (advance d s) = stopTyping s"
    by (auto simp: advance_frame)
  from tracked_subset [OF this assms] Advance show ?thesis by (simp add: step_def)
qed

lemma reachable_timers_tracked: "timers_tracked (run as (AutoComplete c v f tch))"
proof -
  have "timers_tracked s \<Longrightarrow> timers_tracked (run as s)" for s
    by (induction as arbitrary: s) (simp_all add: run_def step_tracked)
  moreover have "timers_tracked (AutoComplete c v f tch)"
    by (simp add: AutoComplete_def init_def setTimeout_def timers_tracked_def is_typing_timer_def)
  ultimately show ?thesis by simp
qed

section \<open>The selected index\<close>

lemma posinset_render_items:
  "map item_posinset (render_items h re n i xs) = map Suc [i..<i + length xs]"
proof (induction xs arbitrary: i)
  case Nil
  then show ?case by simp
next
  case (Cons x xs)
  have "[i..<i + length (x # xs)] = i # [Suc i..<Suc i + length xs]"
    by (simp add: upt_rec)
  with Cons.IH [of "Suc i"] show ?case by simp
qed

lemma renumber_Nil: "renumber n i [] = []"
  by simp

lemma suggest_inv:
  assumes "extra_items s = []" and "labels_consistent s" and "selected_valid s"
  shows "extra_items (suggest list s) = [] \<and> labels_consistent (suggest list s)
    \<and> selected_valid (suggest list s)"
proof (cases "length list = 0 \<or> escape_query (el_value s) = []")
  case True
  then have "extra_items (suggest list s) = extra_items s"
    "list_items (suggest list s) = list_items s" "suggestions (suggest list s) = suggestions s"
    "selected (suggest list s) = selected s"
    by (auto simp: suggest_def popover_hide_def Let_def)
  with assms show ?thesis
    by (auto simp: labels_consistent_def selected_valid_def split: option.splits)
next
  case False
  with assms(1) show ?thesis
    using posinset_render_items [of _ _ _ 0 list]
    by (simp add: suggest_def Let_def labels_consistent_def selected_valid_def
        show_popover_def emit_def log_event_def popover_show_def isShown_def)
qed

lemma toogleHighlighted_frame:
  "selected (toogleHighlighted s) = selected s"
  "suggestions (toogleHighlighted s) = suggestions s"
  "map item_posinset (list_items (toogleHighlighted s)) = map item_posinset (list_items s)"
  "extra_items s = [] \<Longrightarrow> extra_items (toogleHighlighted s) = []"
  by (simp_all add: toogleHighlighted_def Let_def o_def)

lemma posinset_of_bounds:
  assumes "labels_consistent s" and "extra_items s = []" and "posinset_of s t = Some p"
  shows "1 \<le> p \<and> p \<le> int (length (suggestions s))"
proof -
  have len: "length (list_items s) = length (suggestions s)"
    using assms(1) map_eq_imp_length_eq [of item_posinset "list_items s" Suc "[0..<length (suggestions s)]"]
    by (simp add: labels_consistent_def)
  have lab: "item_posinset (list_items s ! k) = Suc k" if "k < length (list_items s)" for k
  proof -
    have "map item_posinset (list_items s) ! k = map Suc [0..<length (suggestions s)] ! k"
      using assms(1) by (simp add: labels_consistent_def)
    with that len show ?thesis by simp
  qed
  show ?thesis
    using assms(2,3) len lab
    by (cases t) (auto simp: posinset_of_def Let_def split: if_splits)
qed

lemma select_inv:
  assumes "extra_items s = []" and "labels_consistent s"
  shows "extra_items (select t s) = [] \<and> labels_consistent (select t s)
    \<and> selected_valid (select t s)"
proof -
  have "selected_valid (select t s)"
  proof (cases "posinset_of s t")
    case None
    then show ?thesis
      by (simp add: select_def selected_valid_def toogleHighlighted_frame)
  next
    case (Some p)
    from posinset_of_bounds [OF assms(2) assms(1) Some] Some show ?thesis
      by (simp add: select_def selected_valid_def toogleHighlighted_frame)
  qed
  moreover have "labels_consistent (select t s)"
    using assms(2) by (simp add: select_def labels_consistent_def toogleHighlighted_frame)
  moreover have "extra_items (select t s) = []"
    using assms(1) by (simp add: select_def toogleHighlighted_frame)
  ultimately show ?thesis by simp
qed

lemma hide_sel_frame:
  "selected (hide s) = selected s \<and> suggestions (hide s) = suggestions s
   \<and> list_items (hide s) = list_items s \<and> extra_items (hide s) = extra_items s"
  by (simp add: hide_def popover_hide_def log_event_def)

lemma el_blur_sel_frame:
  "selected (el_blur s) = selected s \<and> suggestions (el_blur s) = suggestions s
   \<and> list_items (el_blur s) = list_items s \<and> extra_items (el_blur s) = extra_items s"
  by (simp add: el_blur_def on_blur_def hide_sel_frame)

lemma emit_sel_frame:
  "selected (emit e s) = selected s \<and> suggestions (emit e s) = suggestions s
   \<and> list_items (emit e s) = list_items s \<and> extra_items (emit e s) = extra_items s"
  by (cases e)
    (simp_all add: emit_def log_event_def on_typing_def on_disable_def el_blur_sel_frame
      hide_sel_frame)

lemma disable_sel_frame:
  "selected (disable s) = selected s \<and> suggestions (disable s) = suggestions s
   \<and> list_items (disable s) = list_items s \<and> extra_items (disable s) = extra_items s"
  by (simp add: disable_def emit_sel_frame)

lemma el_focus_sel_frame:
  "selected (el_focus s) = selected s \<and> suggestions (el_focus s) = suggestions s
   \<and> list_items (el_focus s) = list_items s \<and> extra_items (el_focus s) = extra_items s"
  by (simp add: el_focus_def on_focus_def)

lemma setQuery_sel_frame:
  "selected (setQuery s) = selected s \<and> suggestions (setQuery s) = suggestions s
   \<and> list_items (setQuery s) = list_items s \<and> extra_items (setQuery s) = extra_items s"
  by (simp add: setQuery_def Let_def clearTimeout_def set_value_def el_blur_sel_frame
      emit_sel_frame)

lemma pointerdown_sel_frame:
  "selected (pointerdown t s) = selected s \<and> suggestions (pointerdown t s) = suggestions s
   \<and> list_items (pointerdown t s) = list_items s \<and> extra_items (pointerdown t s) = extra_items s"
  by (simp add: pointerdown_def Let_def set_value_def emit_sel_frame setQuery_sel_frame)

lemma on_keyinput_sel_frame:
  "selected (on_keyinput s) = selected s \<and> suggestions (on_keyinput s) = suggestions s
   \<and> list_items (on_keyinput s) = list_items s \<and> extra_items (on_keyinput s) = extra_items s"
  by (simp add: on_keyinput_def Let_def clearTimeout_def setTimeout_def)

lemma keystroke_sel_frame:
  "selected (keystroke v s) = selected s \<and> suggestions (keystroke v s) = suggestions s
   \<and> list_items (keystroke v s) = list_items s \<and> extra_items (keystroke v s) = extra_items s"
proof -
  have "selected ((on_keyinput ^^ n) s') = selected s' \<and> suggestions ((on_keyinput ^^ n) s') = suggestions s'
   \<and> list_items ((on_keyinput ^^ n) s') = list_items s' \<and> extra_items ((on_keyinput ^^ n) s') = extra_items s'" for n s'
    by (induction n) (simp_all add: on_keyinput_sel_frame)
  then show ?thesis by (simp add: keystroke_def)
qed

lemma run_callback_sel_frame:
  "selected (run_callback cb s) = selected s \<and> suggestions (run_callback cb s) = suggestions s
   \<and> list_items (run_callback cb s) = list_items s \<and> extra_items (run_callback cb s) = extra_items s"
  by (cases cb) (simp_all add: run_callback_def emit_sel_frame)

lemma fold_callbacks_sel_frame:
  "selected (fold (\<lambda>t. run_callback (callback t)) ts s) = selected s
    \<and> suggestions (fold (\<lambda>t. run_callback (callback t)) ts s) = suggestions s
    \<and> list_items (fold (\<lambda>t. run_callback (callback t)) ts s) = list_items s
    \<and> extra_items (fold (\<lambda>t. run_callback (callback t)) ts s) = extra_items s"
  by (induction ts arbitrary: s) (simp_all add: run_callback_sel_frame)

lemma advance_sel_frame:
  "selected (advance d s) = selected s \<and> suggestions (advance d s) = suggestions s
   \<and> list_items (advance d s) = list_items s \<and> extra_items (advance d s) = extra_items s"
  by (simp add: advance_def Let_def fold_callbacks_sel_frame)

lemma sel_frame_inv:
  assumes "selected s' = selected s \<and> suggestions s' = suggestions s
    \<and> list_items s' = list_items s \<and> extra_items s' = extra_items s"
    and "extra_items s = []" and "labels_consistent s" and "selected_valid s"
  shows "extra_items s' = [] \<and> labels_consistent s' \<and> selected_valid s'"
  using assms by (auto simp: labels_consistent_def selected_valid_def split: option.splits)

lemma step_inv:
  assumes "extra_items s = []" and "labels_consistent s" and "selected_valid s"
  shows "extra_items (step a s) = [] \<and> labels_consistent (step a s) \<and> selected_valid (step a s)"
proof (cases a)
  case (Suggest list)
  with suggest_inv [OF assms] show ?thesis by (simp add: step_def)
next
  case (MouseOver t)
  with select_inv [OF assms(1,2)] assms show ?thesis by (simp add: step_def on_mouseover_def)
next
  case (MouseDown t)
  show ?thesis
  proof (cases "target_exists s t")
    case True
    let ?m = "if touch s then select t s else s"
    have m: "extra_items ?m = [] \<and> labels_consistent ?m \<and> selected_valid ?m"
      using select_inv [OF assms(1,2)] assms by simp
    have "extra_items (pointerdown t ?m) = [] \<and> labels_consistent (pointerdown t ?m)
      \<and> selected_valid (pointerdown t ?m)"
      using sel_frame_inv [OF pointerdown_sel_frame] m by blast
    with True MouseDown show ?thesis by (simp add: step_def on_mousedown_def)
  next
    case False
    with MouseDown assms show ?thesis by (simp add: step_def on_mousedown_def)
  qed
next
  case CallHide
  with sel_frame_inv [OF hide_sel_frame assms] show ?thesis by (simp add: step_def)
next
  case CallDisable
  with sel_frame_inv [OF disable_sel_frame assms] show ?thesis by (simp add: step_def)
next
  case Focus
  with sel_frame_inv [OF el_focus_sel_frame assms] show ?thesis by (simp add: step_def)
next
  case Blur
  with sel_frame_inv [OF el_blur_sel_frame assms] show ?thesis by (simp add: step_def)
next
  case (Keystroke v)
  with sel_frame_inv [OF keystroke_sel_frame assms] show ?thesis by (simp add: step_def)
next
  case (Advance d)
  with sel_frame_inv [OF advance_sel_frame assms] show ?thesis by (simp add: step_def)
qed

lemma init_inv:
  "extra_items (AutoComplete c v f tch) = [] \<and> labels_consistent (AutoComplete c v f tch)
    \<and> selected_valid (AutoComplete c v f tch)"
  by (simp add: AutoComplete_def init_def setTimeout_def labels_consistent_def selected_valid_def)

lemma run_inv:
  assumes "extra_items s = []" and "labels_consistent s" and "selected_valid s"
  shows "extra_items (run as s) = [] \<and> labels_consistent (run as s) \<and> selected_valid (run as s)"
  using assms
proof (induction as arbitrary: s)
  case Nil
  then show ?case by (simp add: run_def)
next
  case (Cons a as)
  from step_inv [OF Cons.prems] have "extra_items (step a s) = []"
    "labels_consistent (step a s)" "selected_valid (step a s)" by simp_all
  from Cons.IH [OF this] show ?case by (simp add: run_def)
qed

lemma reachable_selected_valid: "selected_valid (run as (AutoComplete c v f tch))"
  using run_inv [of "AutoComplete c v f tch" as] init_inv [of c v f tch] by simp




section \<open>Rendering\<close>

lemma syntax_chars_special: "c \<in> set syntax_chars \<Longrightarrow> c \<in> set special_chars"
  by (auto simp: syntax_chars_def special_chars_def)

lemma backslash_special: "backslash \<in> set special_chars"
  by (simp add: special_chars_def)

lemma escape_query_Cons:
  "escape_query (c # v) = (if c \<in> set special_chars then [backslash, c] else [c]) @ escape_query v"
  by (simp add: escape_query_def)

lemma pattern_atoms_escape_query: "pattern_atoms (escape_query v) = Some v"
proof (induction v)
  case Nil
  then show ?case by (simp add: escape_query_def)
next
  case (Cons c v)
  show ?case
  proof (cases "c \<in> set special_chars")
    case True
    with Cons.IH show ?thesis by (simp add: escape_query_Cons)
  next
    case False
    then have nb: "c \<noteq> backslash" and ns: "c \<notin> set syntax_chars"
      using backslash_special syntax_chars_special by auto
    show ?thesis
    proof (cases "escape_query v")
      case Nil
      then have "v = []" by (simp add: escape_query_Nil_iff)
      with False ns Nil show ?thesis by (simp add: escape_query_Cons)
    next
      case (Cons d cs)
      with False nb ns Cons.IH show ?thesis by (simp add: escape_query_Cons)
    qed
  qed
qed

lemma new_RegExp_escape_query: "new_RegExp (CHR ''('' # escape_query v @ '')'') = Some v"
  by (simp add: new_RegExp_def pattern_atoms_escape_query butlast_append)

lemma replace_strong_Nil: "lit \<noteq> [] \<Longrightarrow> replace_strong lit [] = []"
  by (simp add: replace_strong.simps)

lemma replace_strong_skip:
  "lit \<noteq> [] \<Longrightarrow> \<not> matches_at lit (c # cs) \<Longrightarrow> replace_strong lit (c # cs) = c # replace_strong lit cs"
  by (subst replace_strong.simps) simp

lemma replace_strong_match:
  assumes "lit \<noteq> []" and "map canonicalize m = map canonicalize lit"
  shows "replace_strong lit (m @ post) = ''<strong>'' @ m @ ''</strong>'' @ replace_strong lit post"
proof -
  have len: "length m = length lit"
    using assms(2) by (rule map_eq_imp_length_eq)
  with assms(1) have "m \<noteq> []" by auto
  moreover have "matches_at lit (m @ post)"
    using assms(2) len by (simp add: matches_at_def)
  ultimately show ?thesis
    using assms(1) len by (subst replace_strong.simps) simp
qed

lemma replace_strong_leftmost:
  assumes "lit \<noteq> []" and "map canonicalize m = map canonicalize lit"
    and "\<forall>i<length pre. \<not> matches_at lit (drop i (pre @ m @ post))"
  shows "replace_strong lit (pre @ m @ post)
    = pre @ ''<strong>'' @ m @ ''</strong>'' @ replace_strong lit post"
  using assms(3)
proof (induction pre)
  case Nil
  from replace_strong_match [OF assms(1,2)] show ?case by simp
next
  case (Cons c pre)
  from Cons.prems have "\<not> matches_at lit (drop 0 ((c # pre) @ m @ post))" by blast
  then have no: "\<not> matches_at lit (c # pre @ m @ post)" by simp
  have "\<forall>i<length pre. \<not> matches_at lit (drop i (pre @ m @ post))"
  proof (intro allI impI)
    fix i assume "i < length pre"
    then have "Suc i < length (c # pre)" by simp
    with Cons.prems have "\<not> matches_at lit (drop (Suc i) ((c # pre) @ m @ post))" by blast
    then show "\<not> matches_at lit (drop i (pre @ m @ post))" by simp
  qed
  from Cons.IH [OF this] replace_strong_skip [OF assms(1) no] show ?case by simp
qed

lemma replace_strong_no_match:
  assumes "lit \<noteq> []" and "\<forall>i<length str. \<not> matches_at lit (drop i str)"
  shows "replace_strong lit str = str"
  using assms(2)
proof (induction str)
  case Nil
  with assms(1) show ?case by (simp add: replace_strong_Nil)
next
  case (Cons c str)
  from Cons.prems have "\<not> matches_at lit (drop 0 (c # str))" by blast
  then have no: "\<not> matches_at lit (c # str)" by simp
  have "\<forall>i<length str. \<not> matches_at lit (drop i str)"
  proof (intro allI impI)
    fix i assume "i < length str"
    then have "Suc i < length (c # str)" by simp
    with Cons.prems have "\<not> matches_at lit (drop (Suc i) (c # str))" by blast
    then show "\<not> matches_at lit (drop i str)" by simp
  qed
  from Cons.IH [OF this] replace_strong_skip [OF assms(1) no] show ?case by simp
qed

lemma render_items_nth:
  assumes "j < length xs"
  shows "render_items h re n i xs ! j =
    \<lparr>item_setsize = n, item_posinset = i + j + 1,
     item_content = (if \<not> h then String_replace re (xs ! j) else xs ! j),
     item_highlighted = False\<rparr>"
  using assms
proof (induction xs arbitrary: i j)
  case Nil
  then show ?case by simp
next
  case (Cons x xs)
  show ?case
  proof (cases j)
    case 0
    then show ?thesis by simp
  next
    case (Suc k)
    with Cons.prems have "k < length xs" by simp
    from Cons.IH [OF this, of "i + 1"] Suc show ?thesis by simp
  qed
qed

lemma suggest_list_items:
  assumes "list \<noteq> []" and "el_value s \<noteq> []"
  shows "list_items (suggest list s) =
    render_items (html s) (Some (el_value s))
      (if extra_items s = [] then length list else length (extra_items s) - 1) 0 list"
  using assms
  by (simp add: suggest_def Let_def escape_query_Nil_iff new_RegExp_escape_query
      show_popover_def emit_def log_event_def popover_show_def)

text \<open>
  C5. For a non-empty list and a non-empty text of the input: the pattern built from the
  escaped text matches exactly that text, literally; one item is rendered for each
  suggestion, the \<open>i\<close>-th with position label \<open>i + 1\<close>; its content is the suggestion itself
  with the option \<^verbatim>\<open>html\<close>, and otherwise the suggestion with the matches wrapped, which
  means: the leftmost substring that equals the text up to the case of its letters is
  wrapped in \<^verbatim>\<open>strong\<close> in its own spelling and the rest behind it is treated the same
  way, and a string without such a substring is left as it is. For "cat" and "car" and the
  text "ca" the contents are \<^verbatim>\<open><strong>ca</strong>t\<close> and \<^verbatim>\<open><strong>ca</strong>r\<close> with
  labels 1 and 2.
\<close>

theorem suggest_renders:
  assumes "list \<noteq> []" and "el_value s \<noteq> []"
  shows "new_RegExp (''('' @ escape_query (el_value s) @ '')'') = Some (el_value s)
    \<and> length (list_items (suggest list s)) = length list
    \<and> (\<forall>i<length list.
          item_posinset (list_items (suggest list s) ! i) = i + 1
          \<and> item_content (list_items (suggest list s) ! i) =
              (if html s then list ! i else replace_strong (el_value s) (list ! i)))
    \<and> (\<forall>pre m post.
          map canonicalize m = map canonicalize (el_value s)
          \<and> (\<forall>i<length pre. \<not> matches_at (el_value s) (drop i (pre @ m @ post)))
          \<longrightarrow> replace_strong (el_value s) (pre @ m @ post) =
                pre @ ''<strong>'' @ m @ ''</strong>'' @ replace_strong (el_value s) post)
    \<and> (\<forall>str. (\<forall>i<length str. \<not> matches_at (el_value s) (drop i str))
          \<longrightarrow> replace_strong (el_value s) str = str)
    \<and> (el_value s = ''ca'' \<and> \<not> html s \<and> list = [''cat'', ''car'']
          \<longrightarrow> map item_content (list_items (suggest list s))
                = [''<strong>ca</strong>t'', ''<strong>ca</strong>r'']
              \<and> map item_posinset (list_items (suggest list s)) = [1, 2])"
proof -
  note items = suggest_list_items [OF assms]
  have a: "new_RegExp (''('' @ escape_query (el_value s) @ '')'') = Some (el_value s)"
    by (simp add: new_RegExp_escape_query)
  have b: "length (list_items (suggest list s)) = length list"
    by (simp add: items length_render_items)
  have c: "\<forall>i<length list.
          item_posinset (list_items (suggest list s) ! i) = i + 1
          \<and> item_content (list_items (suggest list s) ! i) =
              (if html s then list ! i else replace_strong (el_value s) (list ! i))"
    by (simp add: items render_items_nth String_replace_def)
  have d: "\<forall>pre m post.
          map canonicalize m = map canonicalize (el_value s)
          \<and> (\<forall>i<length pre. \<not> matches_at (el_value s) (drop i (pre @ m @ post)))
          \<longrightarrow> replace_strong (el_value s) (pre @ m @ post) =
                pre @ ''<strong>'' @ m @ ''</strong>'' @ replace_strong (el_value s) post"
    using replace_strong_leftmost [OF assms(2)] by blast
  have e: "\<forall>str. (\<forall>i<length str. \<not> matches_at (el_value s) (drop i str))
          \<longrightarrow> replace_strong (el_value s) str = str"
    using replace_strong_no_match [OF assms(2)] by blast
  have f: "el_value s = ''ca'' \<and> \<not> html s \<and> list = [''cat'', ''car'']
          \<longrightarrow> map item_content (list_items (suggest list s))
                = [''<strong>ca</strong>t'', ''<strong>ca</strong>r'']
              \<and> map item_posinset (list_items (suggest list s)) = [1, 2]"
  proof (intro impI)
    assume h: "el_value s = ''ca'' \<and> \<not> html s \<and> list = [''cat'', ''car'']"
    have "replace_strong ''ca'' ''cat'' = ''<strong>ca</strong>t''"
      "replace_strong ''ca'' ''car'' = ''<strong>ca</strong>r''"
      by code_simp+
    with h items show "map item_content (list_items (suggest list s))
                = [''<strong>ca</strong>t'', ''<strong>ca</strong>r'']
              \<and> map item_posinset (list_items (suggest list s)) = [1, 2]"
      by (simp add: String_replace_def)
  qed
  from a b c d e f show ?thesis by blast
qed

theorem suggest_renders_witness:
  "el_value typed_ca = ''ca'' \<and> \<not> html typed_ca
    \<and> item_posinset (list_items (suggest [''Cat'', ''scar''] typed_ca) ! 1) = 2
    \<and> item_content (list_items (suggest [''Cat'', ''scar''] typed_ca) ! 0) = ''<strong>Ca</strong>t''
    \<and> item_content (list_items (suggest [''Cat'', ''scar''] typed_ca) ! 1) = ''s<strong>ca</strong>r''"
proof -
  have h1: "[''Cat'', ''scar''] \<noteq> []"
    by simp
  have h2: "el_value typed_ca \<noteq> []" and v: "el_value typed_ca = ''ca''"
    and nh: "\<not> html typed_ca"
    by code_simp+
  note r = suggest_renders [OF h1 h2, unfolded v]
  note items = r [THEN conjunct2, THEN conjunct2, THEN conjunct1, rule_format]
  note wrap = r [THEN conjunct2, THEN conjunct2, THEN conjunct2, THEN conjunct1, rule_format]
  note plain = r [THEN conjunct2, THEN conjunct2, THEN conjunct2, THEN conjunct2, THEN conjunct1,
      rule_format]
  have m1: "map canonicalize ''Ca'' = map canonicalize ''ca''"
    and m2: "\<not> matches_at ''ca'' ''scar''"
    and m3: "\<not> matches_at ''ca'' ''t''"
    and m4: "\<not> matches_at ''ca'' ''r''"
    by code_simp+
  have t: "replace_strong ''ca'' ''t'' = ''t''"
    using plain [of "''t''"] m3 by simp
  have c1: "replace_strong ''ca'' ''Cat'' = ''<strong>Ca</strong>t''"
    using wrap [where pre = "[]" and m = "''Ca''" and post = "''t''"] m1 t by simp
  have u: "replace_strong ''ca'' ''r'' = ''r''"
    using plain [of "''r''"] m4 by simp
  have c2: "replace_strong ''ca'' ''scar'' = ''s<strong>ca</strong>r''"
    using wrap [where pre = "''s''" and m = "''ca''" and post = "''r''"] m2 u by simp
  from items [of 0] items [of 1] v nh c1 c2 show ?thesis
    by simp
qed

section \<open>Committing\<close>

text \<open>
  C1, as amended. With a valid selected index: a press on a rendered item or on a child of
  it other than the completion icon, the option \<^verbatim>\<open>html\<close> being off, copies the selected
  suggestion into the input, emits one "select" (followed by the "hide" of the blur
  listener when the input had the focus and the widget is enabled) and takes the focus from
  the input. A press on the completion icon, \<^verbatim>\<open>html\<close> off, copies the selected suggestion
  into the input and emits one "typing" that carries it, no "select", and leaves the focus
  as it is. With \<^verbatim>\<open>html\<close> on, a press on an item emits "select" and takes the focus but
  leaves the input's text as it is.
\<close>

theorem commit_copies_suggestion:
  assumes "selected s = Some k" and "0 \<le> k" and "k < int (length (suggestions s))"
  shows "(\<not> html s \<and> in_item s t \<and> \<not> is_icon s t \<longrightarrow>
            el_value (pointerdown t s) = suggestions s ! nat k
            \<and> events (pointerdown t s) =
                events s @ Select # (if el_focused s \<and> enabled s then [Hide] else [])
            \<and> \<not> el_focused (pointerdown t s))
    \<and> (\<not> html s \<and> is_icon s t \<longrightarrow>
            el_value (pointerdown t s) = suggestions s ! nat k
            \<and> events (pointerdown t s) = events s @ [Typing (suggestions s ! nat k)]
            \<and> el_focused (pointerdown t s) = el_focused s)
    \<and> (html s \<and> in_item s t \<longrightarrow>
            el_value (pointerdown t s) = el_value s
            \<and> events (pointerdown t s) =
                events s @ Select # (if el_focused s \<and> enabled s then [Hide] else [])
            \<and> \<not> el_focused (pointerdown t s))"
  using assms
  by (simp add: pointerdown_def setQuery_def Let_def set_value_def suggestion_at_def
      clearTimeout_def emit_def log_event_def on_typing_def el_blur_def on_blur_def hide_def
      popover_hide_def)

theorem commit_copies_suggestion_witness:
  "selected hover_car = Some 1 \<and> suggestions hover_car = [''cat'', ''car'']
    \<and> el_value hover_car = ''ca''
    \<and> el_value (pointerdown (ItemChild 1) hover_car) = ''car''
    \<and> events (pointerdown (ItemChild 1) hover_car) = events hover_car @ [Select, Hide]
    \<and> \<not> el_focused (pointerdown (ItemChild 1) hover_car)
    \<and> events (pointerdown (ItemIcon 1) hover_car) = events hover_car @ [Typing ''car'']"
proof -
  have h1: "selected hover_car = Some 1" and h2: "(0::int) \<le> 1"
    and h3: "1 < int (length (suggestions hover_car))"
    by code_simp+
  have g: "\<not> html hover_car" "in_item hover_car (ItemChild 1)" "\<not> is_icon hover_car (ItemChild 1)"
    "is_icon hover_car (ItemIcon 1)" "el_focused hover_car" "enabled hover_car"
    "suggestions hover_car = [''cat'', ''car'']" "el_value hover_car = ''ca''"
    by code_simp+
  from commit_copies_suggestion [OF h1 h2 h3, of "ItemChild 1"]
    commit_copies_suggestion [OF h1 h2 h3, of "ItemIcon 1"] h1 g
  show ?thesis by simp
qed

text \<open>
  C1 as stated fails on the completion icon: the press copies "car" into the input but
  emits no "select" and the input keeps the focus. It also fails with the option \<^verbatim>\<open>html\<close>:
  the press on the second item leaves "ca" in the input.
\<close>

theorem icon_emits_typing_not_select:
  "selected hover_car = Some 1
    \<and> el_value (on_mousedown (ItemIcon 1) hover_car) = ''car''
    \<and> Select \<notin> set (events (on_mousedown (ItemIcon 1) hover_car))
    \<and> el_focused (on_mousedown (ItemIcon 1) hover_car)
    \<and> selected hover_car_html = Some 1
    \<and> el_value (on_mousedown (Item 1) hover_car_html) = ''ca''"
  by code_simp

section \<open>Blur\<close>

text \<open>
  C6, as amended. The text of the input is stored as the original query when the input
  gains the focus with the widget enabled, but a blur does not write it back: the blur
  leaves the input's text and the stored original query as they are; with the widget
  enabled it hides the popover, emits "hide" and unbinds the listener of keystrokes.
\<close>

theorem blur_keeps_value:
  "el_value (el_blur s) = el_value s \<and> originalQuery (el_blur s) = originalQuery s
    \<and> (el_focused s \<and> enabled s \<longrightarrow>
          \<not> isShown (el_blur s) \<and> events (el_blur s) = events s @ [Hide]
          \<and> keyinput_handlers (el_blur s) = 0)
    \<and> (\<not> el_focused s \<and> enabled s \<longrightarrow> originalQuery (el_focus s) = el_value s)"
  by (simp add: el_blur_def on_blur_def hide_def popover_hide_def log_event_def isShown_def
      el_focus_def on_focus_def)

theorem blur_keeps_value_witness:
  "el_focused typed_ab \<and> enabled typed_ab \<and> el_value (el_blur typed_ab) = ''ab''
    \<and> originalQuery (el_blur typed_ab) = ''a''
    \<and> events (el_blur typed_ab) = events typed_ab @ [Hide]
    \<and> originalQuery (el_focus (el_blur typed_ab)) = ''ab''"
proof -
  have g: "el_focused typed_ab" "enabled typed_ab" "el_value typed_ab = ''ab''"
    "originalQuery typed_ab = ''a''" "\<not> el_focused (el_blur typed_ab)"
    "enabled (el_blur typed_ab)"
    by code_simp+
  from blur_keeps_value [of typed_ab] blur_keeps_value [of "el_blur typed_ab"] g
  show ?thesis by simp
qed

text \<open>
  C6 as stated fails: the input held "a" when it gained the focus, "ab" was typed, and
  after the blur the input still holds "ab".
\<close>

theorem blur_does_not_restore:
  "originalQuery typed_ab = ''a'' \<and> originalQuery (el_blur typed_ab) = ''a''
    \<and> el_value (el_blur typed_ab) = ''ab''
    \<and> el_value (el_blur typed_ab) \<noteq> originalQuery (el_blur typed_ab)"
  by code_simp

section \<open>The option for the delay\<close>

text \<open>
  C9. A widget given 200 for \<^verbatim>\<open>keystrokesTime\<close> stores the option, but 200 ms and 399 ms
  after a keystroke no "typing" has been emitted; it is emitted after 400 ms, the delay
  written in the listener.
\<close>

theorem keystrokesTime_ignored:
  "keystrokesTime typed_a_200 = 200
    \<and> filter is_typing (events (advance 200 typed_a_200)) = []
    \<and> filter is_typing (events (advance 399 typed_a_200)) = []
    \<and> filter is_typing (events (advance 400 typed_a_200)) = [Typing ''a'']"
  by code_simp

end
